theory Spec2Isabelle
  imports Main "HOL-Library.AList"
begin

section \<open>Backbone.Mobile: BindTo, View and AppRouter\<close>

text \<open>
  A shallow embedding of \<^verbatim>\<open>public/javascripts/backbone.mobile.js\<close>.
  JavaScript objects and functions are compared by reference, so each of them is
  represented by its identity, a natural number.
\<close>

type_synonym oref = nat
type_synonym fref = nat

subsection \<open>BindTo: the data\<close>

text \<open>
  The object literal built by \<^verbatim>\<open>bindTo\<close>. The field \<open>ident\<close> is the identity
  of the literal: \<^verbatim>\<open>bind === binding\<close> compares two of them by \<open>ident\<close> alone.
\<close>

record binding =
  ident :: nat
  obj :: oref
  eventName :: string
  callback :: fref
  bcontext :: oref

text \<open>One registration in an event emitter: object, event name, callback, context.\<close>

type_synonym listener = "oref \<times> string \<times> fref \<times> oref"

definition listener_of :: "binding \<Rightarrow> listener" where
  "listener_of b = (obj b, eventName b, callback b, bcontext b)"

text \<open>
  The calls the code makes to its collaborators, in the order it makes them.
  \<open>HookCall name detached reg\<close> is the call of the view's method \<open>name\<close>, a hook,
  together with what the hook finds at that moment: whether the view is already
  detached, and the registry.
\<close>

datatype call =
    OnCall oref string fref oref
  | OffCall oref string fref oref
  | HookCall string bool "binding list"
  | RemoveCall
  | TriggerCall string
  | UnbindCall

text \<open>
  The object that has mixed in \<^verbatim>\<open>BindTo\<close>. \<open>bindings\<close> is \<^verbatim>\<open>this.bindings\<close>
  (\<open>None\<close> while it is undefined), \<open>fresh\<close> the identity the next object literal
  receives, \<open>listeners\<close> the registrations held by the event emitters, \<open>calls\<close> the
  calls made so far.
\<close>

record world =
  self :: oref
  bindings :: "binding list option"
  fresh :: nat
  listeners :: "listener list"
  calls :: "call list"

text \<open>What \<^verbatim>\<open>_.map\<close>, \<^verbatim>\<open>_.each\<close> and \<^verbatim>\<open>_.reject\<close> see of \<^verbatim>\<open>this.bindings\<close>:
  no element while it is undefined.\<close>

definition registry :: "'a world_scheme \<Rightarrow> binding list" where
  "registry s = (case bindings s of None \<Rightarrow> [] | Some bs \<Rightarrow> bs)"

definition reject :: "'a list \<Rightarrow> ('a \<Rightarrow> bool) \<Rightarrow> 'a list" where
  "reject xs p = filter (\<lambda>x. \<not> p x) xs"

subsection \<open>The event emitter\<close>

text \<open>
  \<^verbatim>\<open>obj.on\<close> and \<^verbatim>\<open>obj.off\<close> belong to Backbone.Events, which the file only
  calls. The functions of \<^verbatim>\<open>BindTo\<close> therefore take the primitive they call as
  an argument: a transformer of the whole state, so that an emitter which calls back
  into the registry is covered as well.
\<close>

type_synonym 'a prim = "oref \<Rightarrow> string \<Rightarrow> fref \<Rightarrow> oref \<Rightarrow> 'a world_scheme \<Rightarrow> 'a world_scheme"

text \<open>
  Modelled from the spec: the event emitter's subscribe(eventName, callback, context),
  which adds one listener registration to the source object.
\<close>

definition emitter_on :: "'a prim" where
  "emitter_on ob ev cb cx s = s\<lparr>listeners := listeners s @ [(ob, ev, cb, cx)]\<rparr>"

text \<open>
  Modelled from the spec: the event emitter's unsubscribe(eventName, callback, context),
  which deregisters the corresponding listener: one registration with these four
  components, if there is one.
\<close>

definition emitter_off :: "'a prim" where
  "emitter_off ob ev cb cx s = s\<lparr>listeners := remove1 (ob, ev, cb, cx) (listeners s)\<rparr>"

subsection \<open>BindTo: the operations\<close>

text \<open>
  \<^verbatim>\<open>bindTo(obj, eventName, callback, context)\<close>; the context argument is \<open>None\<close>
  when it is missing (or falsy). The result is the binding and the new state.
\<close>

definition bindTo ::
  "'a prim \<Rightarrow> oref \<Rightarrow> string \<Rightarrow> fref \<Rightarrow> oref option \<Rightarrow> 'a world_scheme
     \<Rightarrow> binding \<times> 'a world_scheme" where
  "bindTo on ob ev cb cxo s =
     (let cx = (case cxo of None \<Rightarrow> self s | Some c \<Rightarrow> c);
          s1 = on ob ev cb cx (s\<lparr>calls := calls s @ [OnCall ob ev cb cx]\<rparr>);
          s2 = (if bindings s1 = None then s1\<lparr>bindings := Some []\<rparr> else s1);
          b = \<lparr>ident = fresh s2, obj = ob, eventName = ev, callback = cb, bcontext = cx\<rparr>;
          s3 = s2\<lparr>fresh := Suc (fresh s2)\<rparr>
      in (b, s3\<lparr>bindings := Some (registry s3 @ [b])\<rparr>))"

text \<open>\<^verbatim>\<open>unbindFrom(binding)\<close>.\<close>

definition unbindFrom :: "'a prim \<Rightarrow> binding \<Rightarrow> 'a world_scheme \<Rightarrow> 'a world_scheme" where
  "unbindFrom off b s =
     (let s1 = off (obj b) (eventName b) (callback b) (bcontext b)
                 (s\<lparr>calls := calls s @ [OffCall (obj b) (eventName b) (callback b) (bcontext b)]\<rparr>)
      in s1\<lparr>bindings := Some (reject (registry s1) (\<lambda>bind. ident bind = ident b))\<rparr>)"


text \<open>
  A finite run of calls on one registry, with the stock emitter: \<^verbatim>\<open>bindTo\<close> with its
  four arguments, \<^verbatim>\<open>unbindFrom\<close> with a binding.
\<close>

datatype op = Bind oref string fref "oref option" | Unbind binding

fun step :: "op \<Rightarrow> 'a world_scheme \<Rightarrow> 'a world_scheme" where
  "step (Bind ob ev cb cxo) s = snd (bindTo emitter_on ob ev cb cxo s)"
| "step (Unbind b) s = unbindFrom emitter_off b s"

definition run :: "op list \<Rightarrow> 'a world_scheme \<Rightarrow> 'a world_scheme" where
  "run ops s = fold step ops s"

text \<open>Every \<^verbatim>\<open>unbindFrom\<close> of the run is given a binding that is in the registry at
  that moment.\<close>

fun unbinds_present :: "op list \<Rightarrow> 'a world_scheme \<Rightarrow> bool" where
  "unbinds_present [] s = True"
| "unbinds_present (Bind ob ev cb cxo # ops) s = unbinds_present ops (step (Bind ob ev cb cxo) s)"
| "unbinds_present (Unbind b # ops) s =
     (b \<in> set (registry s) \<and> unbinds_present ops (step (Unbind b) s))"

text \<open>The identities of the bindings a run passes to \<^verbatim>\<open>unbindFrom\<close>.\<close>

fun unbound_idents :: "op list \<Rightarrow> nat list" where
  "unbound_idents [] = []"
| "unbound_idents (Bind ob ev cb cxo # ops) = unbound_idents ops"
| "unbound_idents (Unbind b # ops) = ident b # unbound_idents ops"

text \<open>
  The spec's count, in its own words: the bindings returned by the \<^verbatim>\<open>bindTo\<close> calls
  of a run that have not yet been unbound, that is, that no later call of the run
  passes to \<^verbatim>\<open>unbindFrom\<close>.
\<close>

fun not_yet_unbound :: "op list \<Rightarrow> 'a world_scheme \<Rightarrow> binding list" where
  "not_yet_unbound [] s = []"
| "not_yet_unbound (Bind ob ev cb cxo # ops) s =
     (let (b, s') = bindTo emitter_on ob ev cb cxo s
      in (if ident b \<in> set (unbound_idents ops) then [] else [b]) @ not_yet_unbound ops s')"
| "not_yet_unbound (Unbind b # ops) s = not_yet_unbound ops (unbindFrom emitter_off b s)"


subsection \<open>View\<close>

text \<open>
  A configuration value that is either given as it is or as a function that returns
  it; the function is called with the view as \<^verbatim>\<open>this\<close>.
\<close>

datatype 'a cfg = Static 'a | Producer "oref \<Rightarrow> 'a"

fun resolve :: "'a cfg \<Rightarrow> oref \<Rightarrow> 'a" where
  "resolve (Static x) this = x"
| "resolve (Producer f) this = f this"

text \<open>A plain object: its properties in enumeration order.\<close>

type_synonym 'v jsobj = "(string \<times> 'v) list"

text \<open>
  The values of the map handed to event delegation: a method name or a function from
  \<^verbatim>\<open>events\<close>, or the function \<^verbatim>\<open>configureTriggers\<close> builds, whose closure holds
  the event name \<open>value\<close>.
\<close>

datatype handler = MethodName string | Function fref | TriggerHandler string



text \<open>
  The view. A model is represented by what its \<^verbatim>\<open>toJSON()\<close> returns, an object, and
  a collection by what its \<^verbatim>\<open>toJSON()\<close> returns, a value. \<open>attached\<close>: the view's
  element is in the document.
\<close>

record 'v view = world +
  attached :: bool
  model :: "'v jsobj option"
  collection :: "'v option"
  templateHelpers :: "'v jsobj cfg option"
  triggers :: "string jsobj cfg option"
  events :: "handler jsobj cfg option"

text \<open>\<^verbatim>\<open>_.extend(obj, source)\<close>: \<^verbatim>\<open>obj[prop] = source[prop]\<close> for each property of
  the source.\<close>

definition extend_obj :: "'v jsobj \<Rightarrow> 'v jsobj \<Rightarrow> 'v jsobj" where
  "extend_obj target source = fold (\<lambda>(prop, v) ob. AList.update prop v ob) source target"

text \<open>\<^verbatim>\<open>mixinTemplateHelpers(target)\<close>; the target is \<open>None\<close> when it is undefined.\<close>

definition mixinTemplateHelpers :: "('v, 'a) view_scheme \<Rightarrow> 'v jsobj option \<Rightarrow> 'v jsobj" where
  "mixinTemplateHelpers v target =
     (let target = (case target of None \<Rightarrow> [] | Some t \<Rightarrow> t)
      in case templateHelpers v of
           None \<Rightarrow> target
         | Some th \<Rightarrow> extend_obj target (resolve th (self v)))"

text \<open>\<^verbatim>\<open>serializeData()\<close>.\<close>

definition serializeData :: "('v, 'a) view_scheme \<Rightarrow> 'v jsobj" where
  "serializeData v =
     (let data = (case model v of
                    Some m \<Rightarrow> Some m
                  | None \<Rightarrow> (case collection v of
                               Some c \<Rightarrow> Some [(''items'', c)]
                             | None \<Rightarrow> None))
      in mixinTemplateHelpers v data)"



text \<open>\<^verbatim>\<open>configureTriggers()\<close>; \<open>None\<close> is the bare \<^verbatim>\<open>return\<close>.\<close>

definition configureTriggers :: "('v, 'a) view_scheme \<Rightarrow> handler jsobj option" where
  "configureTriggers v =
     (case triggers v of
        None \<Rightarrow> None
      | Some t \<Rightarrow>
          Some (fold (\<lambda>(key, value) triggerEvents. AList.update key (TriggerHandler value) triggerEvents)
                  (resolve t (self v)) []))"

text \<open>\<^verbatim>\<open>delegateEvents(events)\<close>: the result is the map it passes to
  \<^verbatim>\<open>Backbone.View.prototype.delegateEvents\<close>.\<close>

definition delegateEvents :: "('v, 'a) view_scheme \<Rightarrow> handler jsobj cfg option \<Rightarrow> handler jsobj" where
  "delegateEvents v events_arg =
     (let evs = (case events_arg of Some e \<Rightarrow> Some e | None \<Rightarrow> events v);
          evs = (case evs of None \<Rightarrow> None | Some e \<Rightarrow> Some (resolve e (self v)));
          combinedEvents = [];
          trigs = configureTriggers v;
          combinedEvents = (case evs of None \<Rightarrow> combinedEvents | Some e \<Rightarrow> extend_obj combinedEvents e);
          combinedEvents = (case trigs of None \<Rightarrow> combinedEvents | Some t \<Rightarrow> extend_obj combinedEvents t)
      in combinedEvents)"





subsection \<open>AppRouter\<close>


text \<open>\<^verbatim>\<open>_.bind(method, controller)\<close>.\<close>

datatype bound = Bound fref oref


text \<open>The router: the calls of \<^verbatim>\<open>router.route(route, methodName, method)\<close> made so
  far.\<close>

record router =
  routed :: "(string \<times> string \<times> bound) list"












subsection \<open>Notions used in the statements\<close>

text \<open>Every binding of the registry was built before now: its identity is below
  \<open>fresh\<close>.\<close>

definition allocated :: "'a world_scheme \<Rightarrow> bool" where
  "allocated s = (\<forall>b\<in>set (registry s). ident b < fresh s)"

text \<open>
  The registry and the emitters agree: the bindings are distinct objects, and for
  every listener \<open>k\<close> the emitters hold \<open>c0 k\<close> registrations that were made
  elsewhere and one more for each binding of the registry with these four components.
\<close>

definition coherent :: "'a world_scheme \<Rightarrow> (listener \<Rightarrow> nat) \<Rightarrow> bool" where
  "coherent s c0 = (distinct (map ident (registry s)) \<and> allocated s \<and>
     (\<forall>k. count_list (listeners s) k = c0 k + count_list (map listener_of (registry s)) k))"


text \<open>
  Four things an emitter's \<^verbatim>\<open>off\<close> may be known to do, whatever else it does. The
  bindings it leaves in the registry were there before or have been built by it, out
  of fresh objects:
\<close>

definition builds_only_new :: "'a prim \<Rightarrow> bool" where
  "builds_only_new off =
     (\<forall>ob ev cb cx t. fresh t \<le> fresh (off ob ev cb cx t)
        \<and> (\<forall>x\<in>set (registry (off ob ev cb cx t)). x \<in> set (registry t) \<or> fresh t \<le> ident x))"

text \<open>It adds no binding to the registry:\<close>

definition adds_no_binding :: "'a prim \<Rightarrow> bool" where
  "adds_no_binding off =
     (\<forall>ob ev cb cx t. ident ` set (registry (off ob ev cb cx t)) \<subseteq> ident ` set (registry t))"

text \<open>It makes calls and takes none back:\<close>

definition keeps_calls :: "'a prim \<Rightarrow> bool" where
  "keeps_calls off = (\<forall>ob ev cb cx t. \<exists>cs. calls (off ob ev cb cx t) = calls t @ cs)"

text \<open>It deregisters a listener it is called for, and registers none:\<close>

definition deregisters :: "'a prim \<Rightarrow> bool" where
  "deregisters off =
     (\<forall>ob ev cb cx t k.
        count_list (listeners (off ob ev cb cx t)) k
          \<le> count_list (listeners t) k - (if k = (ob, ev, cb, cx) then 1 else 0))"







subsection \<open>Concrete inputs\<close>

text \<open>An owner that has not bound anything yet.\<close>

definition world0 :: world where
  "world0 = \<lparr>self = 0, bindings = None, fresh = 0, listeners = [], calls = []\<rparr>"

text \<open>The bindings three calls \<^verbatim>\<open>bindTo(obj, "e", callback)\<close> with the same arguments
  return to that owner.\<close>

definition binding0 :: binding where
  "binding0 = \<lparr>ident = 0, obj = 1, eventName = ''e'', callback = 2, bcontext = 0\<rparr>"

definition binding1 :: binding where
  "binding1 = \<lparr>ident = 1, obj = 1, eventName = ''e'', callback = 2, bcontext = 0\<rparr>"

definition binding2 :: binding where
  "binding2 = \<lparr>ident = 2, obj = 1, eventName = ''e'', callback = 2, bcontext = 0\<rparr>"


definition world2 :: world where
  "world2 = \<lparr>self = 0, bindings = Some [binding0, binding1], fresh = 2,
             listeners = [(1, ''e'', 2, 0), (1, ''e'', 2, 0)],
             calls = [OnCall 1 ''e'' 2 0, OnCall 1 ''e'' 2 0]\<rparr>"






text \<open>Plain data, for the serialized forms of the examples.\<close>

datatype json = Num nat | Arr "json list" | Obj "(string \<times> json) list"

text \<open>
  A view with the model \<^verbatim>\<open>{a: 1}\<close>, the collection \<^verbatim>\<open>[{x: 1}]\<close>, template helpers,
  triggers given as a function, and events.
\<close>

definition view0 :: "json view" where
  "view0 = \<lparr>self = 0, bindings = None, fresh = 0, listeners = [], calls = [],
            attached = True,
            model = Some [(''a'', Num 1)], collection = Some (Arr [Obj [(''x'', Num 1)]]),
            templateHelpers = Some (Static [(''a'', Num 2), (''h'', Num 3)]),
            triggers = Some (Producer (\<lambda>this. [(''click .foo'', ''do:foo'')])),
            events = Some (Static [(''click .foo'', MethodName ''onFoo''), (''click .bar'', Function 8)])\<rparr>"


section \<open>Properties of BindTo\<close>

lemma registry_simps:
  "registry (s\<lparr>bindings := Some bs\<rparr>) = bs"
  "registry (s\<lparr>calls := cs\<rparr>) = registry s"
  "registry (s\<lparr>listeners := ls\<rparr>) = registry s"
  "registry (s\<lparr>fresh := n\<rparr>) = registry s"
  by (simp_all add: registry_def)

lemma unbindFrom_stock:
  "unbindFrom emitter_off b s =
     s\<lparr>calls := calls s @ [OffCall (obj b) (eventName b) (callback b) (bcontext b)],
       listeners := remove1 (listener_of b) (listeners s),
       bindings := Some (filter (\<lambda>x. ident x \<noteq> ident b) (registry s))\<rparr>"
  by (simp add: unbindFrom_def emitter_off_def reject_def registry_def listener_of_def)

lemma filter_ident_absent:
  "ident b \<notin> ident ` set xs \<Longrightarrow> filter (\<lambda>x. ident x \<noteq> ident b) xs = xs"
  by (induction xs) auto

lemma filter_ident_present:
  "distinct (map ident (xs @ b # ys)) \<Longrightarrow>
   filter (\<lambda>x. ident x \<noteq> ident b) (xs @ b # ys) = xs @ ys"
  by (auto simp: filter_ident_absent)

lemma bindTo_stock:
  "bindTo emitter_on ob ev cb cxo s =
     (let cx = (case cxo of None \<Rightarrow> self s | Some c \<Rightarrow> c);
          b = \<lparr>ident = fresh s, obj = ob, eventName = ev, callback = cb, bcontext = cx\<rparr>
      in (b, s\<lparr>calls := calls s @ [OnCall ob ev cb cx],
               listeners := listeners s @ [listener_of b],
               fresh := Suc (fresh s),
               bindings := Some (registry s @ [b])\<rparr>))"
  by (cases "bindings s") (simp_all add: bindTo_def emitter_on_def registry_def listener_of_def Let_def)

lemma registry_bindTo:
  "registry (snd (bindTo emitter_on ob ev cb cxo s)) = registry s @ [fst (bindTo emitter_on ob ev cb cxo s)]"
  by (simp add: bindTo_stock Let_def registry_simps)

lemma registry_unbindFrom:
  "registry (unbindFrom emitter_off b s) = filter (\<lambda>x. ident x \<noteq> ident b) (registry s)"
  by (simp add: unbindFrom_stock registry_simps)


lemma count_list_remove1:
  "count_list (remove1 x xs) k = count_list xs k - (if x = k \<and> x \<in> set xs then 1 else 0)"
  by (induction xs) auto

lemma count_filter_ident:
  "distinct (map ident xs) \<Longrightarrow> b \<in> set xs \<Longrightarrow>
   count_list (map listener_of (filter (\<lambda>x. ident x \<noteq> ident b) xs)) k =
   count_list (map listener_of xs) k - (if listener_of b = k then 1 else 0)"
proof (induction xs)
  case Nil
  then show ?case by simp
next
  case (Cons x xs)
  show ?case
  proof (cases "x = b")
    case True
    with Cons.prems have "ident b \<notin> ident ` set xs" by auto
    then show ?thesis using True by (simp add: filter_ident_absent)
  next
    case False
    with Cons.prems have b: "b \<in> set xs" and d: "distinct (map ident xs)" and ne: "ident x \<noteq> ident b"
      by (auto simp: image_iff)
    have pos: "listener_of b = k \<Longrightarrow> 0 < count_list (map listener_of xs) k"
      using b by (metis count_list_0_iff gr0I image_eqI list.set_map)
    show ?thesis using Cons.IH[OF d b] ne pos by auto
  qed
qed

subsection \<open>Runs of bindTo and unbindFrom\<close>

lemma registry_run:
  "registry (run ops s) =
     filter (\<lambda>r. ident r \<notin> set (unbound_idents ops)) (registry s) @ not_yet_unbound ops s"
proof (induction ops arbitrary: s)
  case Nil
  show ?case by (simp add: run_def)
next
  case (Cons a ops)
  show ?case
  proof (cases a)
    case (Bind ob ev cb cxo)
    have "registry (run (a # ops) s) = registry (run ops (snd (bindTo emitter_on ob ev cb cxo s)))"
      by (simp add: run_def Bind)
    also have "\<dots> = filter (\<lambda>r. ident r \<notin> set (unbound_idents ops))
                       (registry s @ [fst (bindTo emitter_on ob ev cb cxo s)])
                     @ not_yet_unbound ops (snd (bindTo emitter_on ob ev cb cxo s))"
      by (simp only: Cons.IH registry_bindTo)
    finally show ?thesis
      by (simp add: Bind split_beta Let_def)
  next
    case (Unbind b)
    have "registry (run (a # ops) s) = registry (run ops (unbindFrom emitter_off b s))"
      by (simp add: run_def Unbind)
    also have "\<dots> = filter (\<lambda>r. ident r \<notin> set (unbound_idents ops))
                       (filter (\<lambda>x. ident x \<noteq> ident b) (registry s))
                     @ not_yet_unbound ops (unbindFrom emitter_off b s)"
      by (simp only: Cons.IH registry_unbindFrom)
    finally show ?thesis
      by (simp add: Unbind conj_commute)
  qed
qed

lemma coherent_bind:
  assumes "coherent s c0"
  shows "coherent (step (Bind ob ev cb cxo) s) c0"
  using assms
  by (auto simp: coherent_def allocated_def bindTo_stock Let_def registry_simps less_Suc_eq)

lemma coherent_unbind:
  assumes "coherent s c0" and "b \<in> set (registry s)"
  shows "coherent (step (Unbind b) s) c0"
proof -
  from assms have d: "distinct (map ident (registry s))"
    and c: "\<And>k. count_list (listeners s) k = c0 k + count_list (map listener_of (registry s)) k"
    and a: "allocated s"
    by (auto simp: coherent_def)
  have mem: "listener_of b \<in> set (listeners s)"
  proof -
    have "0 < count_list (map listener_of (registry s)) (listener_of b)"
      using assms(2) by (metis count_list_0_iff gr0I image_eqI list.set_map)
    then have "0 < count_list (listeners s) (listener_of b)" by (simp add: c)
    then show ?thesis by (metis count_list_0_iff less_numeral_extra(3))
  qed
  have pos: "\<And>k. listener_of b = k \<Longrightarrow> 0 < count_list (map listener_of (registry s)) k"
    using assms(2) by (metis count_list_0_iff gr0I image_eqI list.set_map)
  have "\<And>k. count_list (listeners (step (Unbind b) s)) k
        = c0 k + count_list (map listener_of (registry (step (Unbind b) s))) k"
    using pos by (auto simp add: unbindFrom_stock registry_simps count_list_remove1 mem
        count_filter_ident[OF d assms(2)] c)
  moreover have "distinct (map ident (registry (step (Unbind b) s)))"
    using d by (simp add: unbindFrom_stock registry_simps distinct_map_filter)
  moreover have "allocated (step (Unbind b) s)"
    using a by (simp add: allocated_def unbindFrom_stock registry_simps)
  ultimately show ?thesis by (simp add: coherent_def)
qed

lemma coherent_run:
  "coherent s c0 \<Longrightarrow> unbinds_present ops s \<Longrightarrow> coherent (run ops s) c0"
proof (induction ops arbitrary: s)
  case Nil
  then show ?case by (simp add: run_def)
next
  case (Cons a ops)
  show ?case
  proof (cases a)
    case (Bind ob ev cb cxo)
    have "coherent (step a s) c0" unfolding Bind by (rule coherent_bind[OF Cons.prems(1)])
    moreover have "unbinds_present ops (step a s)" using Cons.prems(2) by (simp add: Bind)
    ultimately have "coherent (run ops (step a s)) c0" by (rule Cons.IH)
    then show ?thesis by (simp add: run_def)
  next
    case (Unbind b)
    from Cons.prems(2) have m: "b \<in> set (registry s)" and v: "unbinds_present ops (step a s)"
      by (simp_all add: Unbind)
    have "coherent (step a s) c0" unfolding Unbind by (rule coherent_unbind[OF Cons.prems(1) m])
    from this v have "coherent (run ops (step a s)) c0" by (rule Cons.IH)
    then show ?thesis by (simp add: run_def)
  qed
qed

text \<open>
  C5. Each \<^verbatim>\<open>bindTo\<close> registers the callback on the object, under the given context
  or, when none is given, under the owner itself, appends a new binding to the
  registry and returns it; the binding differs in identity from every binding of the
  registry, also from one with the same four components. In a run of \<^verbatim>\<open>bindTo\<close> and
  \<^verbatim>\<open>unbindFrom\<close> calls that starts on an empty registry and passes to \<^verbatim>\<open>unbindFrom\<close>
  only bindings that are in the registry at that moment, the registry holds exactly
  the bindings returned and not yet unbound, and for every combination of object,
  event name, callback and context the number of listeners registered through the
  registry is the number of those bindings with that combination.
\<close>

theorem bind_unbind_listener_count:
  "(allocated s \<longrightarrow>
      (case bindTo emitter_on ob ev cb cxo s of (b, s') \<Rightarrow>
         registry s' = registry s @ [b] \<and> ident b \<notin> ident ` set (registry s)
         \<and> obj b = ob \<and> eventName b = ev \<and> callback b = cb
         \<and> bcontext b = (case cxo of None \<Rightarrow> self s | Some c \<Rightarrow> c)
         \<and> calls s' = calls s @ [OnCall ob ev cb (bcontext b)]
         \<and> listeners s' = listeners s @ [listener_of b]
         \<and> allocated s'))
   \<and> (registry s = [] \<and> unbinds_present ops s \<longrightarrow>
        registry (run ops s) = not_yet_unbound ops s
        \<and> (\<forall>k. count_list (listeners (run ops s)) k =
                 count_list (listeners s) k
                 + count_list (map listener_of (not_yet_unbound ops s)) k))"
proof (intro conjI impI)
  assume a: "allocated s"
  show "case bindTo emitter_on ob ev cb cxo s of (b, s') \<Rightarrow>
         registry s' = registry s @ [b] \<and> ident b \<notin> ident ` set (registry s)
         \<and> obj b = ob \<and> eventName b = ev \<and> callback b = cb
         \<and> bcontext b = (case cxo of None \<Rightarrow> self s | Some c \<Rightarrow> c)
         \<and> calls s' = calls s @ [OnCall ob ev cb (bcontext b)]
         \<and> listeners s' = listeners s @ [listener_of b]
         \<and> allocated s'"
    using a by (auto simp: bindTo_stock Let_def registry_simps allocated_def less_Suc_eq)
next
  assume h: "registry s = [] \<and> unbinds_present ops s"
  then have r: "registry s = []" and v: "unbinds_present ops s" by simp_all
  show "registry (run ops s) = not_yet_unbound ops s"
    by (simp add: registry_run r)
  have "coherent s (count_list (listeners s))"
    by (simp add: coherent_def allocated_def r)
  then have "coherent (run ops s) (count_list (listeners s))"
    using v by (rule coherent_run)
  then show "\<forall>k. count_list (listeners (run ops s)) k =
                 count_list (listeners s) k
                 + count_list (map listener_of (not_yet_unbound ops s)) k"
    by (simp add: coherent_def registry_run r)
qed

theorem bind_unbind_listener_count_witness:
  "allocated world0
   \<and> bindTo emitter_on 1 ''e'' 2 None world0 =
       (binding0, \<lparr>self = 0, bindings = Some [binding0], fresh = 1,
                    listeners = [(1, ''e'', 2, 0)], calls = [OnCall 1 ''e'' 2 0]\<rparr>)
   \<and> registry world0 = []
   \<and> unbinds_present [Bind 1 ''e'' 2 None, Bind 1 ''e'' 2 None, Unbind binding0] world0
   \<and> not_yet_unbound [Bind 1 ''e'' 2 None, Bind 1 ''e'' 2 None, Unbind binding0] world0 = [binding1]
   \<and> registry (run [Bind 1 ''e'' 2 None, Bind 1 ''e'' 2 None, Unbind binding0] world0) = [binding1]
   \<and> count_list (listeners (run [Bind 1 ''e'' 2 None, Bind 1 ''e'' 2 None, Unbind binding0] world0))
        (1, ''e'', 2, 0) = 1"
proof -
  have a: "allocated world0"
    by (simp add: allocated_def world0_def registry_def)
  have b: "bindTo emitter_on 1 ''e'' 2 None world0 =
       (binding0, \<lparr>self = 0, bindings = Some [binding0], fresh = 1,
                    listeners = [(1, ''e'', 2, 0)], calls = [OnCall 1 ''e'' 2 0]\<rparr>)"
    by (simp add: Let_def bindTo_stock world0_def registry_def binding0_def listener_of_def)
  have r: "registry world0 = []"
    by (simp add: world0_def registry_def)
  have v: "unbinds_present [Bind 1 ''e'' 2 None, Bind 1 ''e'' 2 None, Unbind binding0] world0"
    by (simp add: Let_def bindTo_stock world0_def registry_def binding0_def listener_of_def)
  have n: "not_yet_unbound [Bind 1 ''e'' 2 None, Bind 1 ''e'' 2 None, Unbind binding0] world0 = [binding1]"
    by (simp add: Let_def bindTo_stock world0_def registry_def binding0_def binding1_def listener_of_def)
  from bind_unbind_listener_count
         [of world0 1 "''e''" 2 None "[Bind 1 ''e'' 2 None, Bind 1 ''e'' 2 None, Unbind binding0]"]
       a r v n
  have "registry (run [Bind 1 ''e'' 2 None, Bind 1 ''e'' 2 None, Unbind binding0] world0) = [binding1]
     \<and> count_list (listeners (run [Bind 1 ''e'' 2 None, Bind 1 ''e'' 2 None, Unbind binding0] world0))
        (1, ''e'', 2, 0) = 0 + count_list (map listener_of [binding1]) (1, ''e'', 2, 0)"
    by (simp add: world0_def)
  then show ?thesis using a b r v n by (simp add: binding1_def listener_of_def)
qed

text \<open>
  Without the condition on \<^verbatim>\<open>unbindFrom\<close> the count is wrong: two calls of
  \<^verbatim>\<open>bindTo\<close> with the same arguments, then \<^verbatim>\<open>unbindFrom\<close> twice with the first
  binding. Both listeners are gone, and the second binding has not been unbound.
\<close>

theorem bind_unbind_listener_count_counterexample:
  "count_list (listeners (run [Bind 1 ''e'' 2 None, Bind 1 ''e'' 2 None, Unbind binding0, Unbind binding0] world0))
        (1, ''e'', 2, 0) = 0
   \<and> count_list (map listener_of
        (not_yet_unbound [Bind 1 ''e'' 2 None, Bind 1 ''e'' 2 None, Unbind binding0, Unbind binding0] world0))
        (1, ''e'', 2, 0) = 1"
  by (simp add: Let_def run_def bindTo_stock unbindFrom_stock world0_def registry_def binding0_def listener_of_def)

subsection \<open>unbindFrom\<close>

text \<open>
  C6. \<^verbatim>\<open>unbindFrom(binding)\<close> calls \<^verbatim>\<open>off\<close> on the binding's object with the binding's
  event name, callback and context, which takes one listener with these four
  components out of the emitter, and it removes from the registry the entries that
  are this binding, found by identity: an entry with the same four components and
  another identity stays. In a registry of distinct objects that holds the binding,
  exactly this entry goes, the others keep their order, and registry and listeners
  stay in step. A binding that is not in the registry removes no entry; the listeners
  of the entries are untouched when no listener with the binding's four components
  is registered.
\<close>

theorem unbindFrom_removes_by_identity:
  "calls (unbindFrom emitter_off b s) =
     calls s @ [OffCall (obj b) (eventName b) (callback b) (bcontext b)]
   \<and> listeners (unbindFrom emitter_off b s) = remove1 (listener_of b) (listeners s)
   \<and> registry (unbindFrom emitter_off b s) = filter (\<lambda>x. ident x \<noteq> ident b) (registry s)
   \<and> (distinct (map ident (registry s)) \<and> registry s = xs @ b # ys \<longrightarrow>
        registry (unbindFrom emitter_off b s) = xs @ ys)
   \<and> (coherent s c0 \<and> b \<in> set (registry s) \<longrightarrow> coherent (unbindFrom emitter_off b s) c0)
   \<and> (ident b \<notin> ident ` set (registry s) \<longrightarrow>
        registry (unbindFrom emitter_off b s) = registry s)
   \<and> (ident b \<notin> ident ` set (registry s) \<and> listener_of b \<notin> set (listeners s) \<longrightarrow>
        registry (unbindFrom emitter_off b s) = registry s
        \<and> listeners (unbindFrom emitter_off b s) = listeners s)"
proof (intro conjI impI)
  show "calls (unbindFrom emitter_off b s) =
     calls s @ [OffCall (obj b) (eventName b) (callback b) (bcontext b)]"
    by (simp add: unbindFrom_stock)
  show "listeners (unbindFrom emitter_off b s) = remove1 (listener_of b) (listeners s)"
    by (simp add: unbindFrom_stock)
  show r: "registry (unbindFrom emitter_off b s) = filter (\<lambda>x. ident x \<noteq> ident b) (registry s)"
    by (simp add: unbindFrom_stock registry_simps)
  show "registry (unbindFrom emitter_off b s) = xs @ ys"
    if "distinct (map ident (registry s)) \<and> registry s = xs @ b # ys"
  proof -
    from that have e: "registry s = xs @ b # ys" by (rule conjunct2)
    from that have "distinct (map ident (registry s))" by (rule conjunct1)
    then have d: "distinct (map ident (xs @ b # ys))" by (simp only: e)
    show ?thesis by (simp only: r e filter_ident_present[OF d])
  qed
  show "coherent (unbindFrom emitter_off b s) c0"
    if "coherent s c0 \<and> b \<in> set (registry s)"
    using coherent_unbind[of s c0 b] that by simp
  show "registry (unbindFrom emitter_off b s) = registry s"
    if "ident b \<notin> ident ` set (registry s)"
    using that by (simp add: r filter_ident_absent)
  show "registry (unbindFrom emitter_off b s) = registry s"
    if "ident b \<notin> ident ` set (registry s) \<and> listener_of b \<notin> set (listeners s)"
    using that by (simp add: r filter_ident_absent)
  show "listeners (unbindFrom emitter_off b s) = listeners s"
    if "ident b \<notin> ident ` set (registry s) \<and> listener_of b \<notin> set (listeners s)"
    using that by (simp add: unbindFrom_stock remove1_idem)
qed

theorem unbindFrom_removes_by_identity_witness:
  "distinct (map ident (registry world2))
   \<and> registry world2 = [] @ binding0 # [binding1]
   \<and> listener_of binding0 = listener_of binding1
   \<and> registry (unbindFrom emitter_off binding0 world2) = [binding1]
   \<and> listeners (unbindFrom emitter_off binding0 world2) = [(1, ''e'', 2, 0)]
   \<and> coherent world2 (\<lambda>k. 0)
   \<and> binding0 \<in> set (registry world2)
   \<and> coherent (unbindFrom emitter_off binding0 world2) (\<lambda>k. 0)
   \<and> ident binding2 \<notin> ident ` set (registry world0)
   \<and> listener_of binding2 \<notin> set (listeners world0)
   \<and> registry (unbindFrom emitter_off binding2 world0) = []
   \<and> listeners (unbindFrom emitter_off binding2 world0) = []"
proof -
  have d: "distinct (map ident (registry world2))"
    by (simp add: world2_def registry_def binding0_def binding1_def)
  have r: "registry world2 = [] @ binding0 # [binding1]"
    by (simp add: world2_def registry_def)
  have l: "listener_of binding0 = listener_of binding1"
    by (simp add: listener_of_def binding0_def binding1_def)
  have l2: "remove1 (listener_of binding0) (listeners world2) = [(1, ''e'', 2, 0)]"
    by (simp add: listener_of_def binding0_def world2_def)
  have c: "coherent world2 (\<lambda>k. 0)"
    by (simp add: coherent_def allocated_def world2_def registry_def binding0_def binding1_def
        listener_of_def)
  have m: "binding0 \<in> set (registry world2)"
    by (simp add: r)
  have n: "ident binding2 \<notin> ident ` set (registry world0)"
    and n2: "listener_of binding2 \<notin> set (listeners world0)"
    and r0: "registry world0 = []" and l0: "listeners world0 = []"
    by (simp_all add: world0_def registry_def)
  note t = unbindFrom_removes_by_identity[of binding0 world2 "[]" "[binding1]" "\<lambda>k. 0"]
  from t d r l2
  have a: "registry (unbindFrom emitter_off binding0 world2) = [binding1]
        \<and> listeners (unbindFrom emitter_off binding0 world2) = [(1, ''e'', 2, 0)]"
    by simp
  from t c m have a2: "coherent (unbindFrom emitter_off binding0 world2) (\<lambda>k. 0)"
    by simp
  from unbindFrom_removes_by_identity[of binding2 world0 "[]" "[]" "\<lambda>k. 0"] n n2 r0 l0
  have b: "registry (unbindFrom emitter_off binding2 world0) = []
         \<and> listeners (unbindFrom emitter_off binding2 world0) = []"
    by simp
  from a a2 b c d l m n n2 r show ?thesis by simp
qed

text \<open>
  A binding that is not in the registry can cost an entry its listener: after three
  calls of \<^verbatim>\<open>bindTo\<close> with the same arguments and \<^verbatim>\<open>unbindFrom\<close> with the third
  binding, a second \<^verbatim>\<open>unbindFrom\<close> with that binding removes no entry, and of the
  two listeners of the two entries one is left.
\<close>

theorem unbindFrom_removes_by_identity_counterexample:
  "registry (unbindFrom emitter_off binding2
       (run [Bind 1 ''e'' 2 None, Bind 1 ''e'' 2 None, Bind 1 ''e'' 2 None] world0))
     = [binding0, binding1]
   \<and> listeners (unbindFrom emitter_off binding2
       (run [Bind 1 ''e'' 2 None, Bind 1 ''e'' 2 None, Bind 1 ''e'' 2 None] world0))
     = [(1, ''e'', 2, 0), (1, ''e'', 2, 0)]
   \<and> registry (unbindFrom emitter_off binding2 (unbindFrom emitter_off binding2
       (run [Bind 1 ''e'' 2 None, Bind 1 ''e'' 2 None, Bind 1 ''e'' 2 None] world0)))
     = [binding0, binding1]
   \<and> listeners (unbindFrom emitter_off binding2 (unbindFrom emitter_off binding2
       (run [Bind 1 ''e'' 2 None, Bind 1 ''e'' 2 None, Bind 1 ''e'' 2 None] world0)))
     = [(1, ''e'', 2, 0)]"
  by (simp add: run_def bindTo_stock unbindFrom_stock Let_def world0_def registry_def
      binding0_def binding1_def binding2_def listener_of_def)

text \<open>
  C10. \<^verbatim>\<open>unbindFrom\<close> calls \<^verbatim>\<open>off\<close> on the binding's object exactly once, with the
  binding's event name, callback and context, whatever the registry holds, and the
  emitter deregisters one listener with these components if it has one; the registry
  loses the entries with the binding's identity. Called a second time with the same
  binding, which is no longer in the registry, it calls \<^verbatim>\<open>off\<close> a second time, the
  emitter deregisters a second listener with these components if it has one, and the
  registry is the same as after the first call.
\<close>

theorem unbindFrom_calls_off_once:
  "calls (unbindFrom emitter_off b s) =
     calls s @ [OffCall (obj b) (eventName b) (callback b) (bcontext b)]
   \<and> listeners (unbindFrom emitter_off b s) = remove1 (listener_of b) (listeners s)
   \<and> registry (unbindFrom emitter_off b s) = filter (\<lambda>x. ident x \<noteq> ident b) (registry s)
   \<and> ident b \<notin> ident ` set (registry (unbindFrom emitter_off b s))
   \<and> calls (unbindFrom emitter_off b (unbindFrom emitter_off b s)) =
     calls s @ [OffCall (obj b) (eventName b) (callback b) (bcontext b),
                OffCall (obj b) (eventName b) (callback b) (bcontext b)]
   \<and> listeners (unbindFrom emitter_off b (unbindFrom emitter_off b s)) =
     remove1 (listener_of b) (remove1 (listener_of b) (listeners s))
   \<and> registry (unbindFrom emitter_off b (unbindFrom emitter_off b s)) =
     registry (unbindFrom emitter_off b s)
   \<and> count_list (listeners (unbindFrom emitter_off b (unbindFrom emitter_off b s))) (listener_of b)
     = count_list (listeners s) (listener_of b) - 2"
proof (intro conjI)
  show "calls (unbindFrom emitter_off b s) =
     calls s @ [OffCall (obj b) (eventName b) (callback b) (bcontext b)]"
    by (simp add: unbindFrom_stock)
  show "listeners (unbindFrom emitter_off b s) = remove1 (listener_of b) (listeners s)"
    by (simp add: unbindFrom_stock)
  show "registry (unbindFrom emitter_off b s) = filter (\<lambda>x. ident x \<noteq> ident b) (registry s)"
    by (simp add: unbindFrom_stock registry_simps)
  show "ident b \<notin> ident ` set (registry (unbindFrom emitter_off b s))"
    by (auto simp: unbindFrom_stock registry_simps)
  show "calls (unbindFrom emitter_off b (unbindFrom emitter_off b s)) =
     calls s @ [OffCall (obj b) (eventName b) (callback b) (bcontext b),
                OffCall (obj b) (eventName b) (callback b) (bcontext b)]"
    by (simp add: unbindFrom_stock)
  show "listeners (unbindFrom emitter_off b (unbindFrom emitter_off b s)) =
     remove1 (listener_of b) (remove1 (listener_of b) (listeners s))"
    by (simp add: unbindFrom_stock)
  show "registry (unbindFrom emitter_off b (unbindFrom emitter_off b s)) =
     registry (unbindFrom emitter_off b s)"
    by (simp add: unbindFrom_stock registry_simps)
  show "count_list (listeners (unbindFrom emitter_off b (unbindFrom emitter_off b s))) (listener_of b)
     = count_list (listeners s) (listener_of b) - 2"
    by (auto simp: unbindFrom_stock count_list_remove1 count_list_0_iff)
qed

subsection \<open>unbindAll\<close>










lemma stock_off_properties:
  "builds_only_new emitter_off" "adds_no_binding emitter_off"
  "keeps_calls emitter_off" "deregisters emitter_off"
  by (auto simp: builds_only_new_def adds_no_binding_def keeps_calls_def deregisters_def
      emitter_off_def registry_simps count_list_remove1 count_list_0_iff)






section \<open>Properties of View\<close>

subsection \<open>serializeData\<close>

lemma extend_obj_map_of:
  "distinct (map fst source) \<Longrightarrow> map_of (extend_obj target source) = map_of target ++ map_of source"
proof (induction source arbitrary: target)
  case Nil
  show ?case by (simp add: extend_obj_def)
next
  case (Cons a source)
  obtain pname v where a: "a = (pname, v)" by (cases a)
  from Cons.prems have d: "distinct (map fst source)" and n: "pname \<notin> fst ` set source"
    by (simp_all add: a)
  have "map_of (extend_obj target (a # source)) = map_of (extend_obj (AList.update pname v target) source)"
    by (simp add: extend_obj_def a)
  also have "\<dots> = (map_of target)(pname \<mapsto> v) ++ map_of source"
    by (simp only: Cons.IH[OF d] update_conv')
  also have "\<dots> = map_of target ++ map_of (a # source)"
    using n by (simp add: a map_add_upd_left dom_map_of_conv_image_fst)
  finally show ?case .
qed

text \<open>
  C7. The data \<^verbatim>\<open>serializeData()\<close> returns is looked up first in the template
  helpers (the object itself, or what the function returns when called with the view
  as \<^verbatim>\<open>this\<close>) and then in the base data: the model's serialized form when there is
  a model, also when there is a collection; otherwise \<^verbatim>\<open>{items: ...}\<close> with the
  collection's serialized form when there is a collection; otherwise nothing.
\<close>

theorem serializeData_merges:
  "distinct (map fst (case templateHelpers v of None \<Rightarrow> [] | Some th \<Rightarrow> resolve th (self v))) \<longrightarrow>
   map_of (serializeData v) =
     map_of (case model v of
               Some m \<Rightarrow> m
             | None \<Rightarrow> (case collection v of Some c \<Rightarrow> [(''items'', c)] | None \<Rightarrow> []))
     ++ map_of (case templateHelpers v of
                  None \<Rightarrow> []
                | Some (Static helpers) \<Rightarrow> helpers
                | Some (Producer f) \<Rightarrow> f (self v))"
proof
  assume d: "distinct (map fst (case templateHelpers v of None \<Rightarrow> [] | Some th \<Rightarrow> resolve th (self v)))"
  show "map_of (serializeData v) =
     map_of (case model v of
               Some m \<Rightarrow> m
             | None \<Rightarrow> (case collection v of Some c \<Rightarrow> [(''items'', c)] | None \<Rightarrow> []))
     ++ map_of (case templateHelpers v of
                  None \<Rightarrow> []
                | Some (Static helpers) \<Rightarrow> helpers
                | Some (Producer f) \<Rightarrow> f (self v))"
  proof (cases "templateHelpers v")
    case None
    then show ?thesis
      by (simp add: serializeData_def mixinTemplateHelpers_def split: option.splits)
  next
    case (Some th)
    with d have "distinct (map fst (resolve th (self v)))" by simp
    then have "map_of (extend_obj t (resolve th (self v))) = map_of t ++ map_of (resolve th (self v))" for t
      by (rule extend_obj_map_of)
    then show ?thesis using Some
      by (cases th) (simp_all add: serializeData_def mixinTemplateHelpers_def split: option.splits)
  qed
qed

theorem serializeData_merges_witness:
  "distinct (map fst (case templateHelpers view0 of None \<Rightarrow> [] | Some th \<Rightarrow> resolve th (self view0)))
   \<and> map_of (serializeData view0) ''a'' = Some (Num 2)
   \<and> map_of (serializeData view0) ''h'' = Some (Num 3)
   \<and> map_of (serializeData view0) ''items'' = None
   \<and> serializeData (view0\<lparr>templateHelpers := None\<rparr>) = [(''a'', Num 1)]
   \<and> serializeData (view0\<lparr>model := None, templateHelpers := None\<rparr>)
       = [(''items'', Arr [Obj [(''x'', Num 1)]])]
   \<and> serializeData (view0\<lparr>model := None, collection := None, templateHelpers := None\<rparr>) = []"
proof -
  have d: "distinct (map fst (case templateHelpers view0 of None \<Rightarrow> [] | Some th \<Rightarrow> resolve th (self view0)))"
    by (simp add: view0_def)
  from serializeData_merges[of view0] d
  have m: "map_of (serializeData view0) =
             map_of [(''a'', Num 1)] ++ map_of [(''a'', Num 2), (''h'', Num 3)]"
    by (simp add: view0_def)
  have a: "map_of (serializeData view0) ''a'' = Some (Num 2)"
    and h: "map_of (serializeData view0) ''h'' = Some (Num 3)"
    and i: "map_of (serializeData view0) ''items'' = None"
    by (simp_all add: m)
  have e: "serializeData (view0\<lparr>templateHelpers := None\<rparr>) = [(''a'', Num 1)]"
    "serializeData (view0\<lparr>model := None, templateHelpers := None\<rparr>)
       = [(''items'', Arr [Obj [(''x'', Num 1)]])]"
    "serializeData (view0\<lparr>model := None, collection := None, templateHelpers := None\<rparr>) = []"
    by (simp_all add: serializeData_def mixinTemplateHelpers_def view0_def)
  from d a h i e show ?thesis by simp
qed

subsection \<open>configureTriggers and delegateEvents\<close>



lemma configure_fold_distinct:
  "distinct (map fst acc) \<Longrightarrow>
   distinct (map fst (fold (\<lambda>(key, value) triggerEvents. AList.update key (TriggerHandler value) triggerEvents) ts acc))"
  by (induction ts arbitrary: acc) (auto simp: distinct_update split_beta)

lemma configureTriggers_distinct:
  "configureTriggers v = Some te \<Longrightarrow> distinct (map fst te)"
  by (auto simp: configureTriggers_def configure_fold_distinct split: option.splits)




text \<open>
  C9. A key of the map \<^verbatim>\<open>configureTriggers()\<close> returns has, in the map
  \<^verbatim>\<open>delegateEvents\<close> hands on, the handler built from \<^verbatim>\<open>triggers\<close>, whatever
  \<^verbatim>\<open>events\<close> holds under that key.
\<close>

theorem delegateEvents_trigger_wins:
  "configureTriggers v = Some te \<and> map_of te key = Some h \<longrightarrow>
     map_of (delegateEvents v events_arg) key = Some h"
proof
  assume a: "configureTriggers v = Some te \<and> map_of te key = Some h"
  then have c: "configureTriggers v = Some te" and k: "map_of te key = Some h" by simp_all
  have d: "distinct (map fst te)" using c by (rule configureTriggers_distinct)
  have "map_of (extend_obj t te) key = Some h" for t
    by (simp add: extend_obj_map_of[OF d] k)
  then show "map_of (delegateEvents v events_arg) key = Some h"
    by (simp add: delegateEvents_def c Let_def split: option.splits)
qed

theorem delegateEvents_trigger_wins_witness:
  "configureTriggers view0 = Some [(''click .foo'', TriggerHandler ''do:foo'')]
   \<and> map_of [(''click .foo'', TriggerHandler ''do:foo'')] ''click .foo'' = Some (TriggerHandler ''do:foo'')
   \<and> events view0 = Some (Static [(''click .foo'', MethodName ''onFoo''), (''click .bar'', Function 8)])
   \<and> map_of (delegateEvents view0 None) ''click .foo'' = Some (TriggerHandler ''do:foo'')
   \<and> delegateEvents view0 None = [(''click .foo'', TriggerHandler ''do:foo''), (''click .bar'', Function 8)]"
proof -
  have c: "configureTriggers view0 = Some [(''click .foo'', TriggerHandler ''do:foo'')]"
    by (simp add: configureTriggers_def view0_def)
  have m: "map_of [(''click .foo'', TriggerHandler ''do:foo'')] ''click .foo'' = Some (TriggerHandler ''do:foo'')"
    by simp
  have e: "events view0 = Some (Static [(''click .foo'', MethodName ''onFoo''), (''click .bar'', Function 8)])"
    by (simp add: view0_def)
  from delegateEvents_trigger_wins
         [of view0 "[(''click .foo'', TriggerHandler ''do:foo'')]" "''click .foo''" "TriggerHandler ''do:foo''" None]
       c m
  have w: "map_of (delegateEvents view0 None) ''click .foo'' = Some (TriggerHandler ''do:foo'')"
    by simp
  have f: "delegateEvents view0 None = [(''click .foo'', TriggerHandler ''do:foo''), (''click .bar'', Function 8)]"
    by (simp add: delegateEvents_def c Let_def e extend_obj_def)
  from c m e w f show ?thesis by simp
qed

subsection \<open>close\<close>











section \<open>Properties of AppRouter\<close>














end
